theory Spec2Isabelle
  imports Main
begin

section \<open>Keys\<close>

text \<open>
  \<^verbatim>\<open>type Key fmt.Stringer\<close>: a key is any value with a \<^verbatim>\<open>String() string\<close> method.
  \<^verbatim>\<open>PlainKey\<close> is the one implementation the package provides; every other
  implementation is represented by the name of its dynamic type and the text its
  \<^verbatim>\<open>String\<close> method returns.
\<close>

record PlainKey =
  Text :: string

definition PlainKey_String :: "PlainKey \<Rightarrow> string" where
  "PlainKey_String pk = Text pk"

definition NewPlainKey :: "string \<Rightarrow> PlainKey" where
  "NewPlainKey s = \<lparr>Text = s\<rparr>"

datatype Key = Plain PlainKey | Stringer string string

fun Key_String :: "Key \<Rightarrow> string" where
  "Key_String (Plain pk) = PlainKey_String pk"
| "Key_String (Stringer dyn_type text) = text"

section \<open>The store\<close>

text \<open>
  Channels and maps are reference types: a \<^verbatim>\<open>chan bool\<close> value and a value of type
  \<^verbatim>\<open>observers\<close> are addresses of objects that live in a store, and \<^verbatim>\<open>make\<close> allocates a
  new object there. An address is the index of the object in the store's list, so an
  allocation never returns an address that is in use.

  A channel object records the capacity it was made with and the elements queued in
  it. A spawned goroutine is either not started yet (\<open>Spawned v\<close>: the function literal
  \<^verbatim>\<open>func() { observer <- true }\<close> whose captured variable \<^verbatim>\<open>observer\<close> is the cell \<open>v\<close>), or
  has evaluated the operands of its send and waits for a receiver (\<open>Sending c b\<close>, with
  \<open>c = None\<close> for the nil channel), or has handed its value to a receiver (\<open>Delivered\<close>).
\<close>

type_synonym chan = nat

record hchan =
  capacity :: nat
  buffer :: "bool list"

datatype goroutine = Spawned nat | Sending "chan option" bool | Delivered

record store =
  chans :: "hchan list"
  hmaps :: "(string \<rightharpoonup> chan list) list"
  cells :: "chan option list"
  goroutines :: "goroutine list"

definition empty_store :: store where
  "empty_store = \<lparr>chans = [], hmaps = [], cells = [], goroutines = []\<rparr>"

text \<open>\<^verbatim>\<open>make(chan bool)\<close> and \<^verbatim>\<open>make(observers)\<close>.\<close>

definition make_chan :: "nat \<Rightarrow> store \<Rightarrow> chan \<times> store" where
  "make_chan n s = (length (chans s), s\<lparr>chans := chans s @ [\<lparr>capacity = n, buffer = []\<rparr>]\<rparr>)"

definition make_observers :: "store \<Rightarrow> nat \<times> store" where
  "make_observers s = (length (hmaps s), s\<lparr>hmaps := hmaps s @ [Map.empty]\<rparr>)"

text \<open>
  \<^verbatim>\<open>m[key]\<close> as an expression gives the zero value, the nil slice, when \<^verbatim>\<open>m\<close> is nil or has
  no entry for the key. \<^verbatim>\<open>m[key] = v\<close> panics when \<^verbatim>\<open>m\<close> is nil (the result \<open>None\<close>).
\<close>

definition map_index :: "nat option \<Rightarrow> string \<Rightarrow> store \<Rightarrow> chan list" where
  "map_index mo key s =
     (case mo of
        None \<Rightarrow> []
      | Some m \<Rightarrow> (case (hmaps s ! m) key of None \<Rightarrow> [] | Some xs \<Rightarrow> xs))"

definition map_assign :: "nat option \<Rightarrow> string \<Rightarrow> chan list \<Rightarrow> store \<Rightarrow> store option" where
  "map_assign mo key v s =
     (case mo of
        None \<Rightarrow> None
      | Some m \<Rightarrow> Some (s\<lparr>hmaps := (hmaps s)[m := (hmaps s ! m)(key \<mapsto> v)]\<rparr>))"

section \<open>The registry\<close>

text \<open>
  \<^verbatim>\<open>sync.Mutex\<close> and \<^verbatim>\<open>sync.RWMutex\<close> are structs, held in the registry by value; their
  zero values are unlocked. \<open>Lock\<close> on a locked mutex does not return until another
  goroutine unlocks it (\<open>None\<close>: the caller cannot proceed); \<open>Unlock\<close> of an unlocked
  mutex is a fatal error (\<open>None\<close>).
\<close>

datatype Mutex = Unlocked | Locked

datatype RWMutex = RWUnlocked | RLocked nat | WLocked

fun Lock :: "Mutex \<Rightarrow> Mutex option" where
  "Lock Unlocked = Some Locked"
| "Lock Locked = None"

fun Unlock :: "Mutex \<Rightarrow> Mutex option" where
  "Unlock Locked = Some Unlocked"
| "Unlock Unlocked = None"

record ConcurrentObservable =
  DataLock :: RWMutex
  ObserverLock :: Mutex
  observers :: "nat option"

datatype 'a outcome = Returns 'a | Panics string | Blocks

definition NewConcurrentObservable :: "store \<Rightarrow> ConcurrentObservable \<times> store" where
  "NewConcurrentObservable s =
     (let (m, s) = make_observers s
      in (\<lparr>DataLock = RWUnlocked, ObserverLock = Unlocked, observers = Some m\<rparr>, s))"

text \<open>The zero value \<^verbatim>\<open>ConcurrentObservable{}\<close>: both locks unlocked, the map nil.\<close>

definition zero_ConcurrentObservable :: ConcurrentObservable where
  "zero_ConcurrentObservable = \<lparr>DataLock = RWUnlocked, ObserverLock = Unlocked, observers = None\<rparr>"

text \<open>
  \<^verbatim>\<open>defer l.ObserverLock.Unlock()\<close> runs when the function returns or panics. The receiver
  \<^verbatim>\<open>l\<close> it acts on is the function's own variable, which is dead afterwards, so only a
  failing \<open>Unlock\<close> shows in the result.
\<close>

definition deferred_Unlock :: "ConcurrentObservable \<Rightarrow> 'a outcome \<times> store \<Rightarrow> 'a outcome \<times> store" where
  "deferred_Unlock l r =
     (case Unlock (ObserverLock l) of
        None \<Rightarrow> (Panics ''sync: unlock of unlocked mutex'', snd r)
      | Some u \<Rightarrow> r)"

text \<open>
  \<^verbatim>\<open>func (l ConcurrentObservable) Observe(k Key) chan bool\<close>. The receiver is passed by
  value: \<^verbatim>\<open>l\<close> is a copy of the caller's struct, locks included, and the map field of the
  copy is the same address as the caller's. The caller's struct is not changed by the
  call, so the function returns the outcome and the store only.
\<close>

definition Observe :: "ConcurrentObservable \<Rightarrow> Key \<Rightarrow> store \<Rightarrow> chan outcome \<times> store" where
  "Observe l k s =
     (case Lock (ObserverLock l) of
        None \<Rightarrow> (Blocks, s)
      | Some held \<Rightarrow>
          (let l = l\<lparr>ObserverLock := held\<rparr>;
               (observer, s) = make_chan 0 s;
               key = Key_String k
           in deferred_Unlock l
                (case map_assign (observers l) key (map_index (observers l) key s @ [observer]) s of
                   None \<Rightarrow> (Panics ''assignment to entry in nil map'', s)
                 | Some s \<Rightarrow> (Returns observer, s))))"

text \<open>
  The loop of \<^verbatim>\<open>Notify\<close>,
  \<^verbatim>\<open>for _, observer := range l.observers[k.String()] { go (func() { observer <- true })() }\<close>.
  The function literal captures the variable \<^verbatim>\<open>observer\<close>, not its value, and the send
  reads the variable when the goroutine runs. How many variables there are depends on
  the language version the package is compiled as, which is set outside
  \<^verbatim>\<open>observable.go\<close> and is a parameter here:
  \<^item> \<open>PerLoop\<close>: one variable for the whole loop, assigned anew in each iteration. This is
    the language up to Go 1.21, and what a module gets that does not declare
    \<^verbatim>\<open>go 1.22\<close> or later; the file is from 2020.
  \<^item> \<open>PerIteration\<close>: a new variable in each iteration (Go 1.22 and later).
\<close>

datatype loopvar = PerLoop | PerIteration

definition new_cell :: "store \<Rightarrow> nat \<times> store" where
  "new_cell s = (length (cells s), s\<lparr>cells := cells s @ [None]\<rparr>)"

definition set_cell :: "nat \<Rightarrow> chan \<Rightarrow> store \<Rightarrow> store" where
  "set_cell v c s = s\<lparr>cells := (cells s)[v := Some c]\<rparr>"

definition go_send_true :: "nat \<Rightarrow> store \<Rightarrow> store" where
  "go_send_true v s = s\<lparr>goroutines := goroutines s @ [Spawned v]\<rparr>"

fun range_shared :: "nat \<Rightarrow> chan list \<Rightarrow> store \<Rightarrow> store" where
  "range_shared v [] s = s"
| "range_shared v (c # cs) s = range_shared v cs (go_send_true v (set_cell v c s))"

fun range_fresh :: "chan list \<Rightarrow> store \<Rightarrow> store" where
  "range_fresh [] s = s"
| "range_fresh (c # cs) s =
     (let (v, s) = new_cell s in range_fresh cs (go_send_true v (set_cell v c s)))"

definition range_observers :: "loopvar \<Rightarrow> chan list \<Rightarrow> store \<Rightarrow> store" where
  "range_observers lv xs s =
     (case lv of
        PerLoop \<Rightarrow> (let (v, s) = new_cell s in range_shared v xs s)
      | PerIteration \<Rightarrow> range_fresh xs s)"

text \<open>\<^verbatim>\<open>func (l ConcurrentObservable) Notify(k Key)\<close>, the receiver again a copy.\<close>

definition Notify :: "loopvar \<Rightarrow> ConcurrentObservable \<Rightarrow> Key \<Rightarrow> store \<Rightarrow> unit outcome \<times> store" where
  "Notify lv l k s =
     (case Lock (ObserverLock l) of
        None \<Rightarrow> (Blocks, s)
      | Some held \<Rightarrow>
          (let l = l\<lparr>ObserverLock := held\<rparr>
           in deferred_Unlock l
                (Returns (), range_observers lv (map_index (observers l) (Key_String k) s) s)))"

section \<open>Goroutines and readers\<close>

text \<open>
  A spawned goroutine that gets to run evaluates \<^verbatim>\<open>observer <- true\<close>: it reads the
  captured variable and then waits in the send. \<open>start_all\<close> lets every goroutine that
  has been spawned get that far; after \<^verbatim>\<open>Notify\<close> has returned this is the state in which
  all of its goroutines have been scheduled.
\<close>

definition start_goroutine :: "store \<Rightarrow> goroutine \<Rightarrow> goroutine" where
  "start_goroutine s g = (case g of Spawned v \<Rightarrow> Sending (cells s ! v) True | _ \<Rightarrow> g)"

definition start_all :: "store \<Rightarrow> store" where
  "start_all s = s\<lparr>goroutines := map (start_goroutine s) (goroutines s)\<rparr>"

text \<open>The sends that wait on channel \<open>c\<close>, as the values they carry.\<close>

fun sends_on :: "chan \<Rightarrow> goroutine list \<Rightarrow> bool list" where
  "sends_on c [] = []"
| "sends_on c (Sending (Some c') b # gs) = (if c' = c then b # sends_on c gs else sends_on c gs)"
| "sends_on c (g # gs) = sends_on c gs"

text \<open>
  A reader's \<^verbatim>\<open><-c\<close> on an unbuffered channel: it takes the value of the first goroutine
  that waits in a send on \<open>c\<close>, which then finishes; with no such goroutine the reader
  waits (\<open>None\<close>).
\<close>

fun receive_from :: "chan \<Rightarrow> goroutine list \<Rightarrow> (bool \<times> goroutine list) option" where
  "receive_from c [] = None"
| "receive_from c (Sending (Some c') b # gs) =
     (if c' = c then Some (b, Delivered # gs)
      else map_option (\<lambda>(b', gs'). (b', Sending (Some c') b # gs')) (receive_from c gs))"
| "receive_from c (g # gs) = map_option (\<lambda>(b', gs'). (b', g # gs')) (receive_from c gs)"

definition receive :: "chan \<Rightarrow> store \<Rightarrow> (bool \<times> store) option" where
  "receive c s = map_option (\<lambda>(b, gs). (b, s\<lparr>goroutines := gs\<rparr>)) (receive_from c (goroutines s))"

section \<open>Sequences of calls\<close>

text \<open>
  One caller making calls on a registry one after the other. A call that panics or
  does not return ends the sequence. The events record, for each call, the rendered
  text of its key and its outcome.
\<close>

datatype call = Observe_call Key | Notify_call Key

datatype event = Observed string "chan outcome" | Notified string "unit outcome"

fun run_calls :: "loopvar \<Rightarrow> ConcurrentObservable \<Rightarrow> call list \<Rightarrow> store \<Rightarrow> event list \<times> store" where
  "run_calls lv l [] s = ([], s)"
| "run_calls lv l (Observe_call k # cs) s =
     (case Observe l k s of
        (Returns c, s1) \<Rightarrow>
          (let (evs, s2) = run_calls lv l cs s1 in (Observed (Key_String k) (Returns c) # evs, s2))
      | (r, s1) \<Rightarrow> ([Observed (Key_String k) r], s1))"
| "run_calls lv l (Notify_call k # cs) s =
     (case Notify lv l k s of
        (Returns u, s1) \<Rightarrow>
          (let (evs, s2) = run_calls lv l cs s1 in (Notified (Key_String k) (Returns u) # evs, s2))
      | (r, s1) \<Rightarrow> ([Notified (Key_String k) r], s1))"

text \<open>The channels that \<^verbatim>\<open>Observe\<close> calls returned, each with the text it was asked for.\<close>

fun returned :: "event list \<Rightarrow> (string \<times> chan) list" where
  "returned [] = []"
| "returned (Observed t (Returns c) # evs) = (t, c) # returned evs"
| "returned (e # evs) = returned evs"

text \<open>The keys of the \<^verbatim>\<open>Observe\<close> calls of a sequence, in call order.\<close>

fun observe_keys :: "call list \<Rightarrow> Key list" where
  "observe_keys [] = []"
| "observe_keys (Observe_call k # cs) = k # observe_keys cs"
| "observe_keys (Notify_call k # cs) = observe_keys cs"

text \<open>The channels returned for the text \<open>t\<close>, in call order.\<close>

definition returned_for :: "string \<Rightarrow> event list \<Rightarrow> chan list" where
  "returned_for t evs = map snd (filter (\<lambda>(t', c). t' = t) (returned evs))"

text \<open>The texts for which channel \<open>c\<close> was returned, one for each call that returned it.\<close>

definition returned_by :: "chan \<Rightarrow> event list \<Rightarrow> string list" where
  "returned_by c evs = map fst (filter (\<lambda>(t, c'). c' = c) (returned evs))"

text \<open>A registry from the constructor, then a sequence of calls on it.\<close>

definition run_from_new :: "loopvar \<Rightarrow> call list \<Rightarrow> store \<Rightarrow> ConcurrentObservable \<times> event list \<times> store" where
  "run_from_new lv cs s =
     (let (l, s0) = NewConcurrentObservable s;
          (evs, s') = run_calls lv l cs s0
      in (l, evs, s'))"

text \<open>
  The registries the sequential claims are about: the map field is the address of a
  map in the store, and the caller has not locked the exported \<^verbatim>\<open>ObserverLock\<close> field
  itself.
\<close>

definition registry_ok :: "ConcurrentObservable \<Rightarrow> store \<Rightarrow> bool" where
  "registry_ok l s =
     (ObserverLock l = Unlocked \<and> (case observers l of None \<Rightarrow> False | Some m \<Rightarrow> m < length (hmaps s)))"

section \<open>Calls that run concurrently\<close>

text \<open>
  \<^verbatim>\<open>Observe\<close> statement by statement, for calls made from several goroutines at once. A
  frame is one activation of the method: where it stands, and its variables. The
  receiver \<^verbatim>\<open>l\<close> is one of them: the method has a value receiver, so each activation
  starts from its own copy of the caller's struct, and \<^verbatim>\<open>l.ObserverLock.Lock()\<close> locks
  the mutex inside that copy. The map is reached through the address in the copy and
  is the one object all activations share.

  The statement \<^verbatim>\<open>l.observers[key] = append(l.observers[key], observer)\<close> reads the map
  entry, appends, and writes the entry: a read of the shared map (\<open>At_index\<close>) and a
  later write (\<open>At_assign\<close>).
\<close>

datatype Observe_pc = At_Lock | At_make | At_String | At_index | At_assign | At_Unlock | At_return

record Observe_frame =
  f_pc :: Observe_pc
  f_l :: ConcurrentObservable
  f_k :: Key
  f_observer :: "chan option"
  f_key :: string
  f_appended :: "chan list"
  f_result :: "chan outcome option"

definition call_Observe :: "ConcurrentObservable \<Rightarrow> Key \<Rightarrow> Observe_frame" where
  "call_Observe l k =
     \<lparr>f_pc = At_Lock, f_l = l, f_k = k, f_observer = None, f_key = [], f_appended = [],
      f_result = None\<rparr>"

text \<open>One statement of one activation; \<open>None\<close> when it cannot move (it waits in \<open>Lock\<close>, or has returned).\<close>

definition Observe_step :: "Observe_frame \<Rightarrow> store \<Rightarrow> (Observe_frame \<times> store) option" where
  "Observe_step f s =
     (case f_pc f of
        At_Lock \<Rightarrow>
          (case Lock (ObserverLock (f_l f)) of
             None \<Rightarrow> None
           | Some held \<Rightarrow> Some (f\<lparr>f_l := (f_l f)\<lparr>ObserverLock := held\<rparr>, f_pc := At_make\<rparr>, s))
      | At_make \<Rightarrow>
          (let (c, s) = make_chan 0 s in Some (f\<lparr>f_observer := Some c, f_pc := At_String\<rparr>, s))
      | At_String \<Rightarrow> Some (f\<lparr>f_key := Key_String (f_k f), f_pc := At_index\<rparr>, s)
      | At_index \<Rightarrow>
          (case f_observer f of
             None \<Rightarrow> None
           | Some c \<Rightarrow>
               Some (f\<lparr>f_appended := map_index (observers (f_l f)) (f_key f) s @ [c],
                       f_pc := At_assign\<rparr>, s))
      | At_assign \<Rightarrow>
          (case f_observer f of
             None \<Rightarrow> None
           | Some c \<Rightarrow>
               (case map_assign (observers (f_l f)) (f_key f) (f_appended f) s of
                  None \<Rightarrow>
                    Some (f\<lparr>f_result := Some (Panics ''assignment to entry in nil map''),
                            f_pc := At_Unlock\<rparr>, s)
                | Some s \<Rightarrow> Some (f\<lparr>f_result := Some (Returns c), f_pc := At_Unlock\<rparr>, s)))
      | At_Unlock \<Rightarrow>
          (case Unlock (ObserverLock (f_l f)) of
             None \<Rightarrow>
               Some (f\<lparr>f_result := Some (Panics ''sync: unlock of unlocked mutex''),
                       f_pc := At_return\<rparr>, s)
           | Some u \<Rightarrow> Some (f\<lparr>f_l := (f_l f)\<lparr>ObserverLock := u\<rparr>, f_pc := At_return\<rparr>, s))
      | At_return \<Rightarrow> None)"

text \<open>
  Several activations over one store. A schedule names, step by step, the activation
  that moves next; an activation that cannot move is skipped.
\<close>

definition sched :: "nat \<Rightarrow> Observe_frame list \<times> store \<Rightarrow> Observe_frame list \<times> store" where
  "sched i cfg =
     (let (fs, s) = cfg
      in if i < length fs
         then (case Observe_step (fs ! i) s of None \<Rightarrow> cfg | Some (f, s') \<Rightarrow> (fs[i := f], s'))
         else cfg)"

definition run_schedule :: "nat list \<Rightarrow> Observe_frame list \<times> store \<Rightarrow> Observe_frame list \<times> store" where
  "run_schedule is cfg = fold sched is cfg"

text \<open>An activation is between its \<open>Lock\<close> and its \<open>Unlock\<close>.\<close>

definition holds_lock :: "Observe_frame \<Rightarrow> bool" where
  "holds_lock f = (f_pc f \<in> {At_make, At_String, At_index, At_assign, At_Unlock})"

section \<open>A registry to run the operations on\<close>

text \<open>
  The registry \<^verbatim>\<open>NewConcurrentObservable()\<close> returns in a program that has allocated
  nothing yet, and the store after that call.
\<close>

definition fresh_registry :: ConcurrentObservable where
  "fresh_registry = fst (NewConcurrentObservable empty_store)"

definition fresh_store :: store where
  "fresh_store = snd (NewConcurrentObservable empty_store)"

text \<open>The keys \<^verbatim>\<open>PlainKey{Text: "x"}\<close> and \<^verbatim>\<open>NewPlainKey("y")\<close>.\<close>

definition key_x :: Key where
  "key_x = Plain \<lparr>Text = ''x''\<rparr>"

definition key_y :: Key where
  "key_y = Plain (NewPlainKey ''y'')"

section \<open>Theorems\<close>

subsection \<open>What one call does\<close>

lemmas eval_defs = NewConcurrentObservable_def make_observers_def empty_store_def Observe_def Notify_def
  make_chan_def map_assign_def map_index_def deferred_Unlock_def range_observers_def new_cell_def
  set_cell_def go_send_true_def registry_ok_def run_from_new_def PlainKey_String_def NewPlainKey_def
  returned_by_def returned_for_def start_all_def start_goroutine_def receive_def Let_def
  fresh_registry_def fresh_store_def key_x_def key_y_def

lemma Observe_registry_ok:
  assumes "ObserverLock l = Unlocked" and "observers l = Some m"
  shows "Observe l k s =
     (Returns (length (chans s)),
      s\<lparr>chans := chans s @ [\<lparr>capacity = 0, buffer = []\<rparr>],
        hmaps := (hmaps s)[m := (hmaps s ! m)(Key_String k \<mapsto> map_index (Some m) (Key_String k) s @ [length (chans s)])]\<rparr>)"
  using assms
  by (simp add: Observe_def make_chan_def map_assign_def map_index_def deferred_Unlock_def Let_def)

lemma Observe_nil_map:
  assumes "ObserverLock l = Unlocked" and "observers l = None"
  shows "Observe l k s =
     (Panics ''assignment to entry in nil map'', s\<lparr>chans := chans s @ [\<lparr>capacity = 0, buffer = []\<rparr>]\<rparr>)"
  using assms
  by (simp add: Observe_def make_chan_def map_assign_def deferred_Unlock_def Let_def)

lemma Observe_locked: "ObserverLock l = Locked \<Longrightarrow> Observe l k s = (Blocks, s)"
  by (simp add: Observe_def)

lemma Notify_unlocked:
  "ObserverLock l = Unlocked \<Longrightarrow>
   Notify lv l k s = (Returns (), range_observers lv (map_index (observers l) (Key_String k) s) s)"
  by (simp add: Notify_def deferred_Unlock_def)

lemma Notify_locked: "ObserverLock l = Locked \<Longrightarrow> Notify lv l k s = (Blocks, s)"
  by (simp add: Notify_def)

lemma range_shared_frame:
  "chans (range_shared v xs s) = chans s \<and> hmaps (range_shared v xs s) = hmaps s
   \<and> goroutines (range_shared v xs s) = goroutines s @ replicate (length xs) (Spawned v)
   \<and> length (cells (range_shared v xs s)) = length (cells s)"
  by (induction xs arbitrary: s) (simp_all add: go_send_true_def set_cell_def replicate_app_Cons_same)

lemma range_shared_cell:
  "v < length (cells s) \<Longrightarrow> xs \<noteq> [] \<Longrightarrow> cells (range_shared v xs s) ! v = Some (last xs)"
  by (induction xs arbitrary: s) (auto simp add: go_send_true_def set_cell_def)

lemma range_fresh_frame:
  "chans (range_fresh xs s) = chans s \<and> hmaps (range_fresh xs s) = hmaps s
   \<and> goroutines (range_fresh xs s) =
       goroutines s @ map Spawned [length (cells s) ..< length (cells s) + length xs]
   \<and> cells (range_fresh xs s) = cells s @ map Some xs"
proof (induction xs arbitrary: s)
  case Nil
  then show ?case by simp
next
  case (Cons c cs)
  show ?case
    by (simp add: Cons new_cell_def go_send_true_def set_cell_def upt_rec[of "length (cells s)"]
          del: upt.simps)
qed

lemma range_observers_frame:
  "chans (range_observers lv xs s) = chans s \<and> hmaps (range_observers lv xs s) = hmaps s"
  by (cases lv) (simp_all add: range_observers_def new_cell_def range_shared_frame range_fresh_frame)

lemma Notify_frame:
  "chans (snd (Notify lv l k s)) = chans s \<and> hmaps (snd (Notify lv l k s)) = hmaps s"
  by (cases "ObserverLock l") (simp_all add: Notify_unlocked Notify_locked range_observers_frame)

lemma Notify_map_index:
  "map_index mo t (snd (Notify lv l k s)) = map_index mo t s"
  by (simp add: map_index_def Notify_frame split: option.splits)

lemma Notify_fst: "registry_ok l s \<Longrightarrow> fst (Notify lv l k s) = Returns ()"
  by (simp add: registry_ok_def Notify_unlocked)

lemma Notify_registry_ok_preserved:
  "registry_ok l s \<Longrightarrow> registry_ok l (snd (Notify lv l k s))"
  by (simp add: registry_ok_def Notify_frame split: option.splits)

lemma Observe_fst:
  "registry_ok l s \<Longrightarrow> fst (Observe l k s) = Returns (length (chans s))"
  by (auto simp: registry_ok_def Observe_registry_ok split: option.splits)

lemma Observe_chans:
  "registry_ok l s \<Longrightarrow> chans (snd (Observe l k s)) = chans s @ [\<lparr>capacity = 0, buffer = []\<rparr>]"
  by (auto simp: registry_ok_def Observe_registry_ok split: option.splits)

lemma Observe_hmaps:
  assumes "registry_ok l s" and "observers l = Some m"
  shows "hmaps (snd (Observe l k s)) =
           (hmaps s)[m := (hmaps s ! m)(Key_String k \<mapsto>
              map_index (observers l) (Key_String k) s @ [length (chans s)])]"
  using assms by (simp add: registry_ok_def Observe_registry_ok)

lemma Observe_map_index:
  assumes "registry_ok l s"
  shows "map_index (observers l) t (snd (Observe l k s)) =
           (if t = Key_String k then map_index (observers l) t s @ [length (chans s)]
            else map_index (observers l) t s)"
proof -
  from assms obtain m where m: "observers l = Some m" "m < length (hmaps s)"
    and u: "ObserverLock l = Unlocked"
    by (auto simp: registry_ok_def split: option.splits)
  show ?thesis
    using m by (simp add: Observe_registry_ok[OF u m(1)] map_index_def)
qed

lemma Observe_registry_ok_preserved:
  "registry_ok l s \<Longrightarrow> registry_ok l (snd (Observe l k s))"
  by (auto simp: registry_ok_def Observe_registry_ok split: option.splits)

lemma New_registry_ok:
  "registry_ok (fst (NewConcurrentObservable s)) (snd (NewConcurrentObservable s))"
  by (simp add: NewConcurrentObservable_def make_observers_def registry_ok_def)

lemma New_map_index:
  "map_index (observers (fst (NewConcurrentObservable s))) t (snd (NewConcurrentObservable s)) = []"
  by (simp add: NewConcurrentObservable_def make_observers_def map_index_def)

lemma fresh_registry_ok: "registry_ok fresh_registry fresh_store"
  by (simp add: fresh_registry_def fresh_store_def New_registry_ok)

subsection \<open>What a sequence of calls does\<close>

lemma run_calls_Observe:
  assumes "registry_ok l s"
  shows "run_calls lv l (Observe_call k # cs) s =
           (Observed (Key_String k) (Returns (length (chans s)))
              # fst (run_calls lv l cs (snd (Observe l k s))),
            snd (run_calls lv l cs (snd (Observe l k s))))"
  using Observe_fst[OF assms, of k]
  by (cases "Observe l k s") (simp add: split_beta)

lemma run_calls_Notify:
  assumes "registry_ok l s"
  shows "run_calls lv l (Notify_call k # cs) s =
           (Notified (Key_String k) (Returns ()) # fst (run_calls lv l cs (snd (Notify lv l k s))),
            snd (run_calls lv l cs (snd (Notify lv l k s))))"
  using Notify_fst[OF assms, of lv k]
  by (cases "Notify lv l k s") (simp add: split_beta)

text \<open>
  The invariant of a sequence of calls on a registry: every \<^verbatim>\<open>Observe\<close> returns, the
  channels returned are the addresses allocated one after the other, and the entry of
  each text is what it was, followed by the channels returned for that text in call
  order.
\<close>

lemma run_calls_invariant:
  assumes "registry_ok l s"
  shows "registry_ok l (snd (run_calls lv l cs s))
       \<and> length (chans (snd (run_calls lv l cs s))) =
           length (chans s) + length (returned (fst (run_calls lv l cs s)))
       \<and> map snd (returned (fst (run_calls lv l cs s))) =
           [length (chans s) ..< length (chans s) + length (returned (fst (run_calls lv l cs s)))]
       \<and> map fst (returned (fst (run_calls lv l cs s))) = map Key_String (observe_keys cs)
       \<and> (\<forall>t. map_index (observers l) t (snd (run_calls lv l cs s)) =
                map_index (observers l) t s @ returned_for t (fst (run_calls lv l cs s)))"
  using assms
proof (induction cs arbitrary: s)
  case Nil
  then show ?case by (simp add: returned_for_def)
next
  case (Cons c cs)
  show ?case
  proof (cases c)
    case (Observe_call k)
    let ?s1 = "snd (Observe l k s)"
    have ok1: "registry_ok l ?s1" by (rule Observe_registry_ok_preserved[OF Cons.prems])
    note IH = Cons.IH[OF ok1]
    have len: "length (chans ?s1) = Suc (length (chans s))"
      by (simp add: Observe_chans[OF Cons.prems])
    show ?thesis
      unfolding Observe_call run_calls_Observe[OF Cons.prems]
      using IH len
      by (simp add: returned_for_def Observe_map_index[OF Cons.prems] upt_conv_Cons del: upt_Suc)
  next
    case (Notify_call k)
    let ?s1 = "snd (Notify lv l k s)"
    have ok1: "registry_ok l ?s1" by (rule Notify_registry_ok_preserved[OF Cons.prems])
    note IH = Cons.IH[OF ok1]
    show ?thesis
      unfolding Notify_call run_calls_Notify[OF Cons.prems]
      using IH
      by (simp add: returned_for_def Notify_map_index Notify_frame)
  qed
qed

lemma returned_distinct:
  assumes "registry_ok l s"
  shows "distinct (map snd (returned (fst (run_calls lv l cs s))))"
  using run_calls_invariant[OF assms, of lv cs] by (metis distinct_upt)

lemma filter_distinct_snd:
  "distinct (map snd xs) \<Longrightarrow> (t, c) \<in> set xs \<Longrightarrow> filter (\<lambda>(t', c'). c' = c) xs = [(t, c)]"
proof (induction xs)
  case Nil
  then show ?case by simp
next
  case (Cons x xs)
  obtain t0 c0 where x: "x = (t0, c0)" by (cases x)
  show ?case
  proof (cases "c0 = c")
    case True
    with Cons.prems x have "(t0, c0) = (t, c)" by (force simp: image_iff)
    moreover from Cons.prems x True have "filter (\<lambda>(t', c'). c' = c) xs = []"
      by (auto simp: filter_empty_conv image_iff)
    ultimately show ?thesis using x by simp
  next
    case False
    with Cons x show ?thesis by auto
  qed
qed

subsection \<open>The plain-text key\<close>

text \<open>
  C9. For every string \<open>s\<close>, a \<^verbatim>\<open>PlainKey\<close> made from \<open>s\<close>, by the struct literal or by
  \<^verbatim>\<open>NewPlainKey\<close>, renders as \<open>s\<close> itself, also when it is used through the \<^verbatim>\<open>Key\<close>
  interface. The rendering is a function of the key alone: it reads no state and
  changes none.
\<close>

theorem PlainKey_String_unchanged:
  "PlainKey_String \<lparr>Text = s\<rparr> = s
   \<and> PlainKey_String (NewPlainKey s) = s
   \<and> Key_String (Plain \<lparr>Text = s\<rparr>) = s
   \<and> Key_String (Plain (NewPlainKey s)) = s"
  by (simp add: PlainKey_String_def NewPlainKey_def)

subsection \<open>Observe\<close>

text \<open>
  C5. On a registry, \<^verbatim>\<open>Observe\<close> returns a channel that was not allocated before the
  call; the channel is made with capacity zero and nothing queued, and the channels
  that existed are as they were. The channel is appended at the end of the entry of the
  key's rendered text, an entry that exists after the call whether or not it did
  before. Over a sequence of calls the entry of a text is therefore what it was at the
  start, followed by the channels returned for that text in the order of the calls.
\<close>

theorem Observe_appends_new_channel:
  assumes "registry_ok l s"
  shows "fst (Observe l k s) = Returns (length (chans s))
       \<and> chans (snd (Observe l k s)) = chans s @ [\<lparr>capacity = 0, buffer = []\<rparr>]
       \<and> map_index (observers l) (Key_String k) (snd (Observe l k s)) =
           map_index (observers l) (Key_String k) s @ [length (chans s)]
       \<and> (\<exists>m. observers l = Some m \<and> Key_String k \<in> dom (hmaps (snd (Observe l k s)) ! m))
       \<and> (\<forall>t. map_index (observers l) t (snd (run_calls lv l cs s)) =
                map_index (observers l) t s @ returned_for t (fst (run_calls lv l cs s)))"
proof -
  from assms obtain m where m: "observers l = Some m" "m < length (hmaps s)"
    by (auto simp: registry_ok_def split: option.splits)
  have "Key_String k \<in> dom (hmaps (snd (Observe l k s)) ! m)"
    using m by (simp add: Observe_hmaps[OF assms m(1)])
  with m show ?thesis
    using Observe_fst[OF assms] Observe_chans[OF assms] Observe_map_index[OF assms]
      run_calls_invariant[OF assms]
    by simp
qed

theorem Observe_appends_new_channel_witness:
  "registry_ok fresh_registry (snd (Observe fresh_registry key_x fresh_store))
   \<and> map_index (observers fresh_registry) ''x'' (snd (Observe fresh_registry key_x fresh_store)) = [0]
   \<and> fst (Observe fresh_registry (Stringer ''UserID'' ''x'')
             (snd (Observe fresh_registry key_x fresh_store))) = Returns 1
   \<and> map_index (observers fresh_registry) ''x''
        (snd (Observe fresh_registry (Stringer ''UserID'' ''x'')
               (snd (Observe fresh_registry key_x fresh_store)))) = [0, 1]"
proof -
  let ?s1 = "snd (Observe fresh_registry key_x fresh_store)"
  have ok: "registry_ok fresh_registry ?s1"
    by (rule Observe_registry_ok_preserved[OF fresh_registry_ok])
  have len: "length (chans ?s1) = 1" and old: "map_index (observers fresh_registry) ''x'' ?s1 = [0]"
    by (simp_all add: eval_defs)
  from Observe_appends_new_channel[OF ok, of "Stringer ''UserID'' ''x''"] ok len old
  show ?thesis by simp
qed

text \<open>
  C3. In a sequence of calls on a registry, every \<^verbatim>\<open>Observe\<close> call returns a channel
  (the returned channels are as many as the \<^verbatim>\<open>Observe\<close> calls and stand for their keys'
  texts, in call order), and the channels returned are pairwise distinct, whether the
  keys are the same or not and whatever \<^verbatim>\<open>Notify\<close> calls come in between.
\<close>

theorem Observe_channels_distinct:
  assumes "registry_ok l s"
  shows "map fst (returned (fst (run_calls lv l cs s))) = map Key_String (observe_keys cs)
       \<and> distinct (map snd (returned (fst (run_calls lv l cs s))))"
  using run_calls_invariant[OF assms, of lv cs] returned_distinct[OF assms, of lv cs]
  by blast

theorem Observe_channels_distinct_witness:
  "registry_ok fresh_registry fresh_store
   \<and> returned (fst (run_calls PerLoop fresh_registry
        [Observe_call key_x, Observe_call (Stringer ''UserID'' ''y''), Observe_call key_x]
        fresh_store)) = [(''x'', 0), (''y'', 1), (''x'', 2)]
   \<and> distinct (map snd (returned (fst (run_calls PerLoop fresh_registry
        [Observe_call key_x, Observe_call (Stringer ''UserID'' ''y''), Observe_call key_x]
        fresh_store))))"
proof -
  have ev: "returned (fst (run_calls PerLoop fresh_registry
        [Observe_call key_x, Observe_call (Stringer ''UserID'' ''y''), Observe_call key_x]
        fresh_store)) = [(''x'', 0), (''y'', 1), (''x'', 2)]"
    by (simp add: eval_defs)
  from Observe_channels_distinct[OF fresh_registry_ok] fresh_registry_ok ev
  show ?thesis by blast
qed

subsection \<open>The observer mapping\<close>

text \<open>
  C6. Take the registry the constructor returns, in any store, and make any finite
  sequence of \<^verbatim>\<open>Observe\<close> and \<^verbatim>\<open>Notify\<close> calls on it. Then a channel found in the
  mapping under a text \<open>t\<close> was returned by exactly one \<^verbatim>\<open>Observe\<close> call of the sequence,
  and the key of that call rendered as \<open>t\<close>.
\<close>

theorem mapping_channels_returned_once:
  assumes "run_from_new lv cs s = (l, evs, s')" and "c \<in> set (map_index (observers l) t s')"
  shows "returned_by c evs = [t]"
proof -
  let ?l = "fst (NewConcurrentObservable s)" and ?s0 = "snd (NewConcurrentObservable s)"
  from assms(1) have l: "l = ?l" and evs: "evs = fst (run_calls lv ?l cs ?s0)"
    and s': "s' = snd (run_calls lv ?l cs ?s0)"
    by (auto simp add: run_from_new_def split_beta Let_def)
  note inv = run_calls_invariant[OF New_registry_ok[of s], of lv cs]
  from inv have "map_index (observers l) t s' = returned_for t evs"
    by (simp add: l evs s' New_map_index)
  with assms(2) have mem: "(t, c) \<in> set (returned evs)"
    by (auto simp: returned_for_def)
  have "distinct (map snd (returned evs))"
    unfolding evs by (rule returned_distinct[OF New_registry_ok])
  from filter_distinct_snd[OF this mem] show ?thesis
    by (simp add: returned_by_def)
qed

theorem mapping_channels_returned_once_witness:
  "run_from_new PerLoop
     [Observe_call key_x, Observe_call key_y, Notify_call key_x,
      Observe_call (Stringer ''UserID'' ''x'')] empty_store
   = (fresh_registry,
      fst (snd (run_from_new PerLoop
        [Observe_call key_x, Observe_call key_y, Notify_call key_x,
         Observe_call (Stringer ''UserID'' ''x'')] empty_store)),
      snd (snd (run_from_new PerLoop
        [Observe_call key_x, Observe_call key_y, Notify_call key_x,
         Observe_call (Stringer ''UserID'' ''x'')] empty_store)))
   \<and> map_index (observers fresh_registry) ''x''
        (snd (snd (run_from_new PerLoop
          [Observe_call key_x, Observe_call key_y, Notify_call key_x,
           Observe_call (Stringer ''UserID'' ''x'')] empty_store))) = [0, 2]
   \<and> returned_by 2 (fst (snd (run_from_new PerLoop
        [Observe_call key_x, Observe_call key_y, Notify_call key_x,
         Observe_call (Stringer ''UserID'' ''x'')] empty_store))) = [''x'']"
  (is "?run = (?l, ?evs, ?s') \<and> ?entry \<and> ?once")
proof -
  have run: "?run = (?l, ?evs, ?s')"
    by (simp add: run_from_new_def fresh_registry_def split_beta Let_def)
  have entry: ?entry
    by (simp add: eval_defs)
  then have mem: "2 \<in> set (map_index (observers ?l) ''x'' ?s')"
    by simp
  from mapping_channels_returned_once[OF run mem] run entry show ?thesis by blast
qed

text \<open>
  With one caller, making its calls one after the other, no operation takes a channel
  out of the mapping. \<^verbatim>\<open>Notify\<close> leaves every map of the store as it is, so every entry
  of the registry's mapping is unchanged. \<^verbatim>\<open>Observe\<close> appends the one new channel to the
  entry of its key's text and changes no other entry, of this map or of another, and
  no map is added or dropped. Over any such sequence of calls each entry keeps what it
  held, at the same positions. For calls that run at the same time this is not so; see
  the concurrent calls below.
\<close>

lemma sequential_mapping_never_shrinks:
  assumes "registry_ok l s"
  shows "hmaps (snd (Notify lv l k s)) = hmaps s
       \<and> (\<forall>t. map_index (observers l) t (snd (Notify lv l k s)) = map_index (observers l) t s)
       \<and> (\<forall>t. map_index (observers l) t (snd (Observe l k s)) =
                (if t = Key_String k then map_index (observers l) t s @ [length (chans s)]
                 else map_index (observers l) t s))
       \<and> length (hmaps (snd (Observe l k s))) = length (hmaps s)
       \<and> (\<forall>m t. (Some m, t) \<noteq> (observers l, Key_String k) \<longrightarrow>
                (hmaps (snd (Observe l k s)) ! m) t = (hmaps s ! m) t)
       \<and> (\<forall>t. take (length (map_index (observers l) t s))
                  (map_index (observers l) t (snd (run_calls lv l cs s))) =
                map_index (observers l) t s)"
proof -
  from assms obtain m where m: "observers l = Some m" "m < length (hmaps s)"
    by (auto simp: registry_ok_def split: option.splits)
  have other: "(hmaps (snd (Observe l k s)) ! m') t = (hmaps s ! m') t"
    if "(Some m', t) \<noteq> (observers l, Key_String k)" for m' t
    using that m by (cases "m' = m") (simp_all add: Observe_hmaps[OF assms m(1)])
  show ?thesis
    using other Observe_map_index[OF assms] run_calls_invariant[OF assms, of lv cs]
    by (simp add: Notify_frame Notify_map_index Observe_hmaps[OF assms m(1)])
qed

lemma sequential_mapping_never_shrinks_example:
  "registry_ok fresh_registry (snd (Observe fresh_registry key_y fresh_store))
   \<and> (Some 0, ''y'') \<noteq> (observers fresh_registry, Key_String key_x)
   \<and> map_index (observers fresh_registry) ''y'' (snd (Observe fresh_registry key_y fresh_store)) = [0]
   \<and> (hmaps (snd (Observe fresh_registry key_x (snd (Observe fresh_registry key_y fresh_store)))) ! 0) ''y''
       = (hmaps (snd (Observe fresh_registry key_y fresh_store)) ! 0) ''y''
   \<and> hmaps (snd (Notify PerLoop fresh_registry key_x (snd (Observe fresh_registry key_y fresh_store))))
       = hmaps (snd (Observe fresh_registry key_y fresh_store))"
proof -
  let ?s1 = "snd (Observe fresh_registry key_y fresh_store)"
  have ok: "registry_ok fresh_registry ?s1"
    by (rule Observe_registry_ok_preserved[OF fresh_registry_ok])
  have ne: "(Some 0, ''y'') \<noteq> (observers fresh_registry, Key_String key_x)"
    and old: "map_index (observers fresh_registry) ''y'' ?s1 = [0]"
    by (simp_all add: eval_defs)
  from sequential_mapping_never_shrinks[OF ok, where lv = PerLoop and k = key_x] ok ne old
  show ?thesis by blast
qed

subsection \<open>Notify where nothing is registered\<close>

text \<open>
  C8. When the entry of the key's text holds no channel (no \<^verbatim>\<open>Observe\<close> was made for that
  text) and the lock is free, \<^verbatim>\<open>Notify\<close> returns: it neither panics nor waits. It spawns
  no goroutine, so no send is scheduled, and it leaves the maps and the channels as
  they are. The store after the call is the store before it, but for the loop's own
  variable where the language allocates one for the loop.
\<close>

theorem Notify_without_observers:
  assumes "ObserverLock l = Unlocked" and "map_index (observers l) (Key_String k) s = []"
  shows "fst (Notify lv l k s) = Returns ()
       \<and> goroutines (snd (Notify lv l k s)) = goroutines s
       \<and> hmaps (snd (Notify lv l k s)) = hmaps s
       \<and> chans (snd (Notify lv l k s)) = chans s
       \<and> snd (Notify lv l k s) =
           (case lv of PerLoop \<Rightarrow> s\<lparr>cells := cells s @ [None]\<rparr> | PerIteration \<Rightarrow> s)"
  using assms
  by (cases lv) (simp_all add: Notify_unlocked range_observers_def new_cell_def)

theorem Notify_without_observers_witness:
  "ObserverLock fresh_registry = Unlocked
   \<and> map_index (observers fresh_registry) (Key_String key_y)
        (snd (Observe fresh_registry key_x fresh_store)) = []
   \<and> fst (Notify PerLoop fresh_registry key_y (snd (Observe fresh_registry key_x fresh_store)))
       = Returns ()
   \<and> goroutines (snd (Notify PerLoop fresh_registry key_y (snd (Observe fresh_registry key_x fresh_store))))
       = goroutines (snd (Observe fresh_registry key_x fresh_store))"
proof -
  have u: "ObserverLock fresh_registry = Unlocked"
    and e: "map_index (observers fresh_registry) (Key_String key_y)
              (snd (Observe fresh_registry key_x fresh_store)) = []"
    by (simp_all add: eval_defs)
  from Notify_without_observers[OF u e, of PerLoop] u e show ?thesis by blast
qed

subsection \<open>The zero value\<close>

text \<open>
  C10. On the zero value of \<^verbatim>\<open>ConcurrentObservable\<close>, whose map is nil, \<^verbatim>\<open>Notify\<close> on any key
  returns and does nothing: the index expression on the nil map gives the nil slice
  and the loop has no iteration. \<^verbatim>\<open>Observe\<close> on any key panics in the assignment to an
  entry of the nil map, having changed no map. On the registry the constructor
  returns \<^verbatim>\<open>Observe\<close> returns a channel, and in general \<^verbatim>\<open>Observe\<close> returns a channel
  exactly when the lock is free and the map is not nil.
\<close>

theorem zero_value_registry:
  "fst (Notify lv zero_ConcurrentObservable k s) = Returns ()
   \<and> snd (Notify lv zero_ConcurrentObservable k s) =
       (case lv of PerLoop \<Rightarrow> s\<lparr>cells := cells s @ [None]\<rparr> | PerIteration \<Rightarrow> s)
   \<and> fst (Observe zero_ConcurrentObservable k s) = Panics ''assignment to entry in nil map''
   \<and> hmaps (snd (Observe zero_ConcurrentObservable k s)) = hmaps s
   \<and> fst (Observe (fst (NewConcurrentObservable s)) k (snd (NewConcurrentObservable s))) =
       Returns (length (chans s))
   \<and> ((\<exists>c. fst (Observe l k s) = Returns c) = (ObserverLock l = Unlocked \<and> observers l \<noteq> None))"
proof -
  have z: "ObserverLock zero_ConcurrentObservable = Unlocked" "observers zero_ConcurrentObservable = None"
    by (simp_all add: zero_ConcurrentObservable_def)
  have n: "fst (Observe (fst (NewConcurrentObservable s)) k (snd (NewConcurrentObservable s))) =
       Returns (length (chans s))"
    by (simp add: Observe_fst[OF New_registry_ok]) (simp add: NewConcurrentObservable_def make_observers_def)
  have iff: "(\<exists>c. fst (Observe l k s) = Returns c) = (ObserverLock l = Unlocked \<and> observers l \<noteq> None)"
  proof (cases "ObserverLock l")
    case Unlocked
    then show ?thesis
      by (cases "observers l") (simp_all add: Observe_nil_map Observe_registry_ok)
  next
    case Locked
    then show ?thesis by (simp add: Observe_locked)
  qed
  show ?thesis
    using n iff
    by (cases lv) (simp_all add: Notify_unlocked[OF z(1)] z Observe_nil_map[OF z] map_index_def
        range_observers_def new_cell_def)
qed

subsection \<open>Notify where channels are registered\<close>

text \<open>
  What the goroutines of one \<^verbatim>\<open>Notify\<close> call send to, once they have all been scheduled
  after the call has returned. With a variable per iteration each goroutine holds the
  channel of its own iteration, and the sends are one per registered channel, in
  order. With one variable per loop all goroutines read the same variable, which holds
  the last channel of the entry by then.
\<close>

lemma start_fresh:
  assumes "cells s = cs @ map Some xs"
  shows "map (start_goroutine s) (map Spawned [length cs ..< length cs + length xs])
     = map (\<lambda>c. Sending (Some c) True) xs"
  by (rule nth_equalityI) (simp_all add: start_goroutine_def nth_append assms)

lemma Notify_PerIteration_goroutines:
  assumes "ObserverLock l = Unlocked"
  shows "drop (length (goroutines s)) (goroutines (start_all (snd (Notify PerIteration l k s)))) =
           map (\<lambda>c. Sending (Some c) True) (map_index (observers l) (Key_String k) s)"
proof -
  let ?xs = "map_index (observers l) (Key_String k) s"
  let ?s' = "range_fresh ?xs s"
  have "map (start_goroutine ?s') (map Spawned [length (cells s) ..< length (cells s) + length ?xs])
          = map (\<lambda>c. Sending (Some c) True) ?xs"
    by (rule start_fresh) (simp add: range_fresh_frame)
  then show ?thesis
    by (simp add: Notify_unlocked[OF assms] range_observers_def start_all_def range_fresh_frame)
qed

lemma Notify_PerLoop_goroutines:
  assumes "ObserverLock l = Unlocked" and "map_index (observers l) (Key_String k) s \<noteq> []"
  shows "drop (length (goroutines s)) (goroutines (start_all (snd (Notify PerLoop l k s)))) =
           replicate (length (map_index (observers l) (Key_String k) s))
             (Sending (Some (last (map_index (observers l) (Key_String k) s))) True)"
proof -
  let ?xs = "map_index (observers l) (Key_String k) s"
  let ?s1 = "s\<lparr>cells := cells s @ [None]\<rparr>"
  let ?s' = "range_shared (length (cells s)) ?xs ?s1"
  have "cells ?s' ! length (cells s) = Some (last ?xs)"
    using range_shared_cell[of "length (cells s)" ?s1 ?xs] assms(2) by simp
  then show ?thesis
    by (simp add: Notify_unlocked[OF assms(1)] range_observers_def new_cell_def start_all_def
          range_shared_frame start_goroutine_def)
qed

text \<open>Under either reading of the loop, a send of \<^verbatim>\<open>Notify\<close> goes to a channel of the key's entry.\<close>

lemma Notify_sends_within_entry:
  assumes "ObserverLock l = Unlocked"
    and "Sending (Some c) b \<in>
           set (drop (length (goroutines s)) (goroutines (start_all (snd (Notify lv l k s)))))"
  shows "c \<in> set (map_index (observers l) (Key_String k) s)"
proof (cases lv)
  case PerLoop
  show ?thesis
  proof (cases "map_index (observers l) (Key_String k) s = []")
    case True
    with assms PerLoop show ?thesis
      by (simp add: Notify_unlocked range_observers_def new_cell_def start_all_def)
  next
    case False
    with assms(2) show ?thesis
      unfolding PerLoop Notify_PerLoop_goroutines[OF assms(1) False] by auto
  qed
next
  case PerIteration
  with assms(2) show ?thesis
    unfolding PerIteration Notify_PerIteration_goroutines[OF assms(1)] by auto
qed

text \<open>The operations see a key through its rendered text only.\<close>

lemma same_text_same_key:
  assumes "Key_String a = Key_String b"
  shows "Observe l a s = Observe l b s \<and> Notify lv l a s = Notify lv l b s"
  by (simp only: Observe_def Notify_def assms)

text \<open>
  C1. The claim: with \<open>K\<close> channels registered for the key's text, a \<^verbatim>\<open>Notify\<close> call
  schedules exactly one send of \<^verbatim>\<open>true\<close> on each of them, so that each reader receives
  one \<^verbatim>\<open>true\<close>. The code spawns \<open>K\<close> goroutines, but each sends on whatever the loop
  variable \<^verbatim>\<open>observer\<close> holds when the goroutine runs. With the one variable per loop of
  the language the file was written in, and the goroutines scheduled after the loop:
  on a new registry, two \<^verbatim>\<open>Observe\<close> calls for \<^verbatim>\<open>"x"\<close> return the channels 0 and 1, and
  \<^verbatim>\<open>Notify\<close> for \<^verbatim>\<open>"x"\<close> leaves two goroutines that both send on channel 1. No send is
  scheduled on channel 0, whose reader waits, and two are on channel 1.
\<close>

theorem Notify_sends_only_to_last_observer:
  "(let (c1, s1) = Observe fresh_registry key_x fresh_store;
        (c2, s2) = Observe fresh_registry key_x s1;
        (r, s3) = Notify PerLoop fresh_registry key_x s2;
        s4 = start_all s3
    in c1 = Returns 0 \<and> c2 = Returns 1 \<and> r = Returns ()
       \<and> map_index (observers fresh_registry) ''x'' s2 = [0, 1]
       \<and> goroutines s3 = [Spawned 0, Spawned 0]
       \<and> cells s3 = [Some 1]
       \<and> goroutines s4 = [Sending (Some 1) True, Sending (Some 1) True]
       \<and> sends_on 0 (goroutines s4) = []
       \<and> sends_on 1 (goroutines s4) = [True, True]
       \<and> receive 0 s4 = None
       \<and> (case receive 1 s4 of
            None \<Rightarrow> False
          | Some (b, s5) \<Rightarrow> b \<and> sends_on 1 (goroutines s5) = [True]))"
  by (simp add: eval_defs)

text \<open>
  C4. The claim: \<^verbatim>\<open>Notify\<close> on key \<open>A\<close> sends to a channel returned by \<^verbatim>\<open>Observe\<close> on key
  \<open>B\<close> exactly when \<open>A\<close> and \<open>B\<close> render to the same text, whatever their types. That a
  channel registered under another text gets no send holds
  (\<open>Notify_sends_within_entry\<close>), and keys of different types with one text are one key
  to both operations (\<open>same_text_same_key\<close>). That every channel registered under the
  same text gets a send fails with the one loop variable, as for C1: here the channel
  0 was returned for a key of another type with the text \<^verbatim>\<open>"x"\<close>, channel 1 for the plain
  key \<^verbatim>\<open>"x"\<close>, channel 2 for \<^verbatim>\<open>"y"\<close>, and \<^verbatim>\<open>Notify\<close> on the plain key \<^verbatim>\<open>"x"\<close> sends twice on
  channel 1 and not on channel 0.
\<close>

theorem Notify_skips_same_text_observer:
  "(let (c1, s1) = Observe fresh_registry (Stringer ''UserID'' ''x'') fresh_store;
        (c2, s2) = Observe fresh_registry (Plain (NewPlainKey ''x'')) s1;
        (c3, s3) = Observe fresh_registry key_y s2;
        (r, s4) = Notify PerLoop fresh_registry (Plain (NewPlainKey ''x'')) s3;
        s5 = start_all s4
    in c1 = Returns 0 \<and> c2 = Returns 1 \<and> c3 = Returns 2 \<and> r = Returns ()
       \<and> Key_String (Plain (NewPlainKey ''x'')) = Key_String (Stringer ''UserID'' ''x'')
       \<and> map_index (observers fresh_registry) ''x'' s3 = [0, 1]
       \<and> map_index (observers fresh_registry) ''y'' s3 = [2]
       \<and> sends_on 0 (goroutines s5) = []
       \<and> sends_on 1 (goroutines s5) = [True, True]
       \<and> sends_on 2 (goroutines s5) = [])"
  by (simp add: eval_defs)

subsection \<open>Concurrent calls\<close>

text \<open>
  The statements of one activation, run with no other activation in between, do what
  \<open>Observe\<close> does in one piece; an activation whose copy of the lock is held never moves.
\<close>

lemma Observe_step_by_step:
  assumes "ObserverLock l = Unlocked"
  shows "map f_result (fst (run_schedule [0, 0, 0, 0, 0, 0, 0] ([call_Observe l k], s))) =
           [Some (fst (Observe l k s))]
       \<and> map f_pc (fst (run_schedule [0, 0, 0, 0, 0, 0, 0] ([call_Observe l k], s))) = [At_return]
       \<and> snd (run_schedule [0, 0, 0, 0, 0, 0, 0] ([call_Observe l k], s)) = snd (Observe l k s)"
  using assms
  by (cases "observers l")
     (simp_all add: run_schedule_def sched_def Observe_step_def call_Observe_def Observe_def
        make_chan_def map_assign_def deferred_Unlock_def Let_def)

lemma Observe_step_blocked:
  assumes "ObserverLock l = Locked"
  shows "run_schedule is ([call_Observe l k], s) = ([call_Observe l k], s)
       \<and> Observe l k s = (Blocks, s)"
proof -
  have "sched i ([call_Observe l k], s) = ([call_Observe l k], s)" for i
    using assms by (simp add: sched_def Observe_step_def call_Observe_def)
  then have "fold sched is ([call_Observe l k], s) = ([call_Observe l k], s)"
    by (induction "is") simp_all
  then show ?thesis using assms by (simp add: run_schedule_def Observe_def)
qed

text \<open>
  C2. The claim: concurrent \<^verbatim>\<open>Observe\<close> and \<^verbatim>\<open>Notify\<close> calls are serialized on the mapping by
  the registry's \<^verbatim>\<open>ObserverLock\<close>, the mapping is mutated only while that lock is held,
  and no subscription is lost. The methods have value receivers, so every call locks
  the mutex of its own copy of the registry and no call waits for another. Two
  \<^verbatim>\<open>Observe\<close> calls for \<^verbatim>\<open>"x"\<close> on a new registry, taking turns statement by statement: after
  four turns each, both are between their \<open>Lock\<close> and their \<open>Unlock\<close>, each holding the
  lock of its own copy, about to write the entry with the slice it built from the
  empty entry it read; the registry's own lock was never taken. When both have returned, their channels 0 and 1 are
  distinct but the entry holds channel 1 only: the subscription of the first call is
  lost. Run one after the other, the same two calls leave both channels in the entry.
\<close>

theorem concurrent_Observe_loses_subscription:
  "(let start = ([call_Observe fresh_registry key_x, call_Observe fresh_registry key_x], fresh_store);
        (fs1, s1) = run_schedule [0, 1, 0, 1, 0, 1, 0, 1] start;
        (fs2, s2) = run_schedule [0, 1, 0, 1, 0, 1] (fs1, s1);
        (fs3, s3) = run_schedule [0, 0, 0, 0, 0, 0, 0, 1, 1, 1, 1, 1, 1, 1] start
    in ObserverLock fresh_registry = Unlocked
       \<and> map holds_lock fs1 = [True, True]
       \<and> map (\<lambda>f. ObserverLock (f_l f)) fs1 = [Locked, Locked]
       \<and> map f_pc fs1 = [At_assign, At_assign]
       \<and> map f_appended fs1 = [[0], [1]]
       \<and> map f_pc fs2 = [At_return, At_return]
       \<and> map f_result fs2 = [Some (Returns 0), Some (Returns 1)]
       \<and> map_index (observers fresh_registry) ''x'' s2 = [1]
       \<and> map f_result fs3 = [Some (Returns 0), Some (Returns 1)]
       \<and> map_index (observers fresh_registry) ''x'' s3 = [0, 1])"
  by code_simp

text \<open>
  C7. The claim: no operation ever removes a channel from the observer mapping;
  \<^verbatim>\<open>Notify\<close> leaves it unchanged and \<^verbatim>\<open>Observe\<close> only appends to the entry of its key's
  text. For one caller this holds (\<open>sequential_mapping_never_shrinks\<close>), and \<^verbatim>\<open>Notify\<close>
  never writes a map (\<open>Notify_frame\<close>). For \<^verbatim>\<open>Observe\<close> calls that run at the same time it
  fails, since the lock each call takes is its own copy's, as for C2. Two \<^verbatim>\<open>Observe\<close>
  calls for \<^verbatim>\<open>"x"\<close> on a new registry: the second activation locks, makes channel 0,
  reads the empty entry and builds its slice; then the first activation runs from
  start to end, returns channel 1, and the entry holds channel 1. The one statement
  the second activation executes next, its write of the entry, puts its slice in
  place: the entry holds channel 0 only, and channel 1, registered and returned to
  its caller, has been removed from the mapping by an \<^verbatim>\<open>Observe\<close>.
\<close>

theorem concurrent_Observe_removes_channel:
  "(let start = ([call_Observe fresh_registry key_x, call_Observe fresh_registry key_x], fresh_store);
        (fs1, s1) = run_schedule [1, 1, 1, 1, 0, 0, 0, 0, 0, 0, 0] start;
        (fs2, s2) = run_schedule [1] (fs1, s1)
    in map f_pc fs1 = [At_return, At_assign]
       \<and> map f_result fs1 = [Some (Returns 1), None]
       \<and> map f_appended fs1 = [[1], [0]]
       \<and> map_index (observers fresh_registry) ''x'' s1 = [1]
       \<and> map f_pc fs2 = [At_return, At_Unlock]
       \<and> map f_result fs2 = [Some (Returns 1), Some (Returns 0)]
       \<and> map_index (observers fresh_registry) ''x'' s2 = [0]
       \<and> take (length (map_index (observers fresh_registry) ''x'' s1))
            (map_index (observers fresh_registry) ''x'' s2)
          \<noteq> map_index (observers fresh_registry) ''x'' s1)"
  by code_simp

end
